theory Spec2Isabelle
  imports Main
begin

section \<open>paths-filter-lite: the path filter of .github/actions/paths-filter-lite/index.js\<close>

text \<open>
  The action reads a filter definition (filter names, each followed by glob patterns),
  compiles every glob to a regular expression, tests every changed file against every
  filter and emits one output per filter.

  Strings are lists of 8-bit characters: the code units \<open>0x00\<close> to \<open>0xFF\<close> of a
  JavaScript string. Exceptions are values of \<open>error\<close> on the left of a sum.
\<close>

datatype error =
    InputRequired       \<comment> \<open>\<open>getInput\<close>: "Input required and not supplied"\<close>
  | NoFiltersDefined    \<comment> \<open>\<open>main\<close>: "No filters defined in input "filters"."\<close>
  | TypeError           \<comment> \<open>calling \<open>push\<close> on a value that has none\<close>
  | SyntaxError         \<comment> \<open>\<open>new RegExp\<close> on a pattern it cannot read\<close>
  | ChangedFilesError   \<comment> \<open>anything \<open>getChangedFilesFromPR\<close> throws\<close>

subsection \<open>Characters and \<open>String.prototype\<close>\<close>

text \<open>
  \<open>WhiteSpace\<close> and \<open>LineTerminator\<close> of ECMAScript below \<open>0x100\<close>: TAB, LF, VT, FF, CR,
  SP and NBSP. Both \<open>trim\<close> and the class \<open>\s\<close> use this set.
\<close>

definition is_space :: "char \<Rightarrow> bool" where
  "is_space c = (c \<in> set [CHR 0x09, CHR 0x0A, CHR 0x0B, CHR 0x0C, CHR 0x0D, CHR 0x20, CHR 0xA0])"

definition is_line_terminator :: "char \<Rightarrow> bool" where
  "is_line_terminator c = (c = CHR 0x0A \<or> c = CHR 0x0D)"

definition trim :: "string \<Rightarrow> string" where
  "trim s = rev (dropWhile is_space (rev (dropWhile is_space s)))"

text \<open>\<open>s.startsWith(c)\<close> and \<open>s.endsWith(c)\<close> for a one-character \<open>c\<close>.\<close>

fun startsWith :: "string \<Rightarrow> char \<Rightarrow> bool" where
  "startsWith [] c = False"
| "startsWith (d # ds) c = (d = c)"

definition endsWith :: "string \<Rightarrow> char \<Rightarrow> bool" where
  "endsWith s c = startsWith (rev s) c"

text \<open>\<open>s.slice(1)\<close> is \<open>tl s\<close>; \<open>s.slice(1, -1)\<close> drops the first and the last character
  and is empty when \<open>s\<close> has fewer than two.\<close>

definition slice_1_m1 :: "string \<Rightarrow> string" where
  "slice_1_m1 s = butlast (tl s)"

subsection \<open>Regular expressions: the fragment \<open>globToRegex\<close> emits\<close>

text \<open>
  An atom consumes one character: a literal, \<open>.\<close> (anything but a line terminator) or
  the class \<open>[^/]\<close>. A pattern is a sequence of the assertions \<open>^\<close> and \<open>$\<close>, atoms,
  and atoms under the greedy quantifier \<open>*\<close>.
\<close>

datatype rx_atom = Chr char | Dot | NotSlash

datatype rx_item = Bol | Eol | One rx_atom | Star rx_atom

fun atom_ok :: "rx_atom \<Rightarrow> char \<Rightarrow> bool" where
  "atom_ok (Chr d) c = (c = d)"
| "atom_ok Dot c = (\<not> is_line_terminator c)"
| "atom_ok NotSlash c = (c \<noteq> CHR ''/'')"

text \<open>The characters \<open>escapeRegexChar\<close> puts a backslash before:
  \<open>/[-/\\^$*+?.()|[\]{}]/\<close>.\<close>

definition escaped_chars :: "char list" where
  "escaped_chars = ''-/'' @ [CHR 0x5C] @ ''^$*+?.()|[]{}''"

text \<open>The syntax characters of a pattern, which stand for themselves only after a
  backslash.\<close>

definition syntax_chars :: "char list" where
  "syntax_chars = [CHR 0x5C] @ ''^$*+?.()|[]{}''"

text \<open>
  \<open>new RegExp(src)\<close>, for the sources in the fragment; every other source is refused.
  After every atom the parser looks for the quantifier \<open>*\<close>.
\<close>

definition rx_cons :: "rx_item \<Rightarrow> rx_item list option \<Rightarrow> rx_item list option" where
  "rx_cons i r = map_option (Cons i) r"

function rx_parse :: "string \<Rightarrow> rx_item list option" where
  "rx_parse [] = Some []"
| "rx_parse (c # cs) =
     (if c = CHR ''^'' then rx_cons Bol (rx_parse cs)
      else if c = CHR ''$'' then rx_cons Eol (rx_parse cs)
      else if c = CHR ''.'' then
        (if startsWith cs (CHR ''*'') then rx_cons (Star Dot) (rx_parse (drop 1 cs))
         else rx_cons (One Dot) (rx_parse cs))
      else if c = CHR 0x5C then
        (if cs \<noteq> [] \<and> hd cs \<in> set escaped_chars then
           (if startsWith (drop 1 cs) (CHR ''*'') then rx_cons (Star (Chr (hd cs))) (rx_parse (drop 2 cs))
            else rx_cons (One (Chr (hd cs))) (rx_parse (drop 1 cs)))
         else None)
      else if c = CHR ''['' then
        (if take 3 cs = ''^/]'' then
           (if startsWith (drop 3 cs) (CHR ''*'') then rx_cons (Star NotSlash) (rx_parse (drop 4 cs))
            else rx_cons (One NotSlash) (rx_parse (drop 3 cs)))
         else None)
      else if c \<in> set syntax_chars then None
      else
        (if startsWith cs (CHR ''*'') then rx_cons (Star (Chr c)) (rx_parse (drop 1 cs))
         else rx_cons (One (Chr c)) (rx_parse cs)))"
  by pat_completeness auto
termination
  by (relation "measure length") auto

text \<open>
  The backtracking matcher. \<open>rx_match r b s\<close> matches the items \<open>r\<close> at the head of \<open>s\<close>,
  where \<open>b\<close> says that the head of \<open>s\<close> is index 0 of the input, and returns what is left
  of \<open>s\<close> after the match found first: a starred atom takes as many characters as it can
  and gives them back one at a time.
\<close>

fun rx_match :: "rx_item list \<Rightarrow> bool \<Rightarrow> string \<Rightarrow> string option" where
  "rx_match [] b s = Some s"
| "rx_match (Bol # r) b s = (if b then rx_match r b s else None)"
| "rx_match (Eol # r) b s = (if s = [] then rx_match r b s else None)"
| "rx_match (One a # r) b [] = None"
| "rx_match (One a # r) b (c # cs) = (if atom_ok a c then rx_match r False cs else None)"
| "rx_match (Star a # r) b [] = rx_match r b []"
| "rx_match (Star a # r) b (c # cs) =
     (if atom_ok a c then
        (case rx_match (Star a # r) False cs of
           Some rest \<Rightarrow> Some rest
         | None \<Rightarrow> rx_match r b (c # cs))
      else rx_match r b (c # cs))"

text \<open>
  \<open>rx.exec(s)\<close> for a pattern without flags: the match is tried at index 0, 1, ... of the
  input; the result is the span (start, end) of the first match. \<open>rx.test(s)\<close> says
  whether there is one.
\<close>

fun rx_search :: "rx_item list \<Rightarrow> nat \<Rightarrow> string \<Rightarrow> (nat \<times> nat) option" where
  "rx_search r i [] =
     (case rx_match r (i = 0) [] of
        Some rest \<Rightarrow> Some (i, i)
      | None \<Rightarrow> None)"
| "rx_search r i (c # cs) =
     (case rx_match r (i = 0) (c # cs) of
        Some rest \<Rightarrow> Some (i, i + (length (c # cs) - length rest))
      | None \<Rightarrow> rx_search r (Suc i) cs)"

definition rx_exec :: "rx_item list \<Rightarrow> string \<Rightarrow> (nat \<times> nat) option" where
  "rx_exec r s = rx_search r 0 s"

definition rx_test :: "rx_item list \<Rightarrow> string \<Rightarrow> bool" where
  "rx_test r s = (rx_exec r s \<noteq> None)"

subsection \<open>\<open>escapeRegexChar\<close> and \<open>globToRegex\<close>\<close>

definition escapeRegexChar :: "char \<Rightarrow> string" where
  "escapeRegexChar ch = (if ch \<in> set escaped_chars then [CHR 0x5C, ch] else [ch])"

text \<open>
  The loop of \<open>globToRegex\<close> over the index \<open>i\<close>, as a recursion over the characters from
  \<open>i\<close> on: \<open>**\<close> gives \<open>.*\<close> and skips the second star, a \<open>*\<close> that no \<open>*\<close> follows
  (\<open>glob[i + 1]\<close> is \<open>undefined\<close> at the end) gives \<open>[^/]*\<close>, \<open>?\<close> gives \<open>[^/]\<close>, every
  other character is escaped.
\<close>

fun globToRegex_loop :: "string \<Rightarrow> string" where
  "globToRegex_loop [] = []"
| "globToRegex_loop [ch] =
     (if ch = CHR ''*'' then ''[^/]*''
      else if ch = CHR ''?'' then ''[^/]''
      else escapeRegexChar ch)"
| "globToRegex_loop (ch # next # rest) =
     (if ch = CHR ''*'' then
        (if next = CHR ''*'' then ''.*'' @ globToRegex_loop rest
         else ''[^/]*'' @ globToRegex_loop (next # rest))
      else if ch = CHR ''?'' then ''[^/]'' @ globToRegex_loop (next # rest)
      else escapeRegexChar ch @ globToRegex_loop (next # rest))"

definition globToRegex :: "string \<Rightarrow> string" where
  "globToRegex glob = ''^'' @ globToRegex_loop glob @ ''$''"

text \<open>
  What \<open>new RegExp(globToRegex(glob))\<close> is, between \<open>^\<close> and \<open>$\<close>: the items that
  \<open>rx_parse\<close> reads from the source \<open>globToRegex_loop\<close> writes (lemma
  \<open>rx_parse_globToRegex\<close> below).
\<close>

fun glob_items :: "string \<Rightarrow> rx_item list" where
  "glob_items [] = []"
| "glob_items [ch] =
     (if ch = CHR ''*'' then [Star NotSlash]
      else if ch = CHR ''?'' then [One NotSlash]
      else [One (Chr ch)])"
| "glob_items (ch # next # rest) =
     (if ch = CHR ''*'' then
        (if next = CHR ''*'' then Star Dot # glob_items rest
         else Star NotSlash # glob_items (next # rest))
      else if ch = CHR ''?'' then One NotSlash # glob_items (next # rest)
      else One (Chr ch) # glob_items (next # rest))"

subsection \<open>\<open>compilePatterns\<close> and \<open>fileMatchesFilter\<close>\<close>

record pattern =
  negative :: bool
  rx :: "rx_item list"
  raw :: string

record compiled =
  patterns :: "pattern list"
  hasPositive :: bool

text \<open>The function mapped over \<open>patternsRaw\<close>; \<open>new RegExp\<close> throws on a source it
  cannot read.\<close>

definition compilePattern :: "string \<Rightarrow> error + pattern" where
  "compilePattern raw_in =
     (let s = trim raw_in;
          neg = startsWith s (CHR ''!'');
          s' = (if neg then trim (tl s) else s)
      in case rx_parse (globToRegex s') of
           None \<Rightarrow> Inl SyntaxError
         | Some r \<Rightarrow> Inr \<lparr>negative = neg, rx = r, raw = raw_in\<rparr>)"

fun mapM :: "('a \<Rightarrow> error + 'b) \<Rightarrow> 'a list \<Rightarrow> error + 'b list" where
  "mapM f [] = Inr []"
| "mapM f (x # xs) =
     (case f x of
        Inl e \<Rightarrow> Inl e
      | Inr y \<Rightarrow> (case mapM f xs of Inl e \<Rightarrow> Inl e | Inr ys \<Rightarrow> Inr (y # ys)))"

definition compilePatterns :: "string list \<Rightarrow> error + compiled" where
  "compilePatterns patternsRaw =
     (case mapM compilePattern patternsRaw of
        Inl e \<Rightarrow> Inl e
      | Inr ps \<Rightarrow> Inr \<lparr>patterns = ps, hasPositive = list_ex (\<lambda>p. \<not> negative p) ps\<rparr>)"

text \<open>The loop of \<open>fileMatchesFilter\<close> carries \<open>included\<close> through all patterns.\<close>

definition fileMatchesFilter :: "string \<Rightarrow> compiled \<Rightarrow> bool" where
  "fileMatchesFilter file c =
     foldl (\<lambda>included p. if rx_test (rx p) file then (if negative p then False else True) else included)
       (if hasPositive c then False else True) (patterns c)"

subsection \<open>\<open>parseFilters\<close>\<close>

text \<open>
  \<open>text.split(/\r?\n/)\<close>: a line ends at LF, or at CR LF; a CR that no LF follows stays
  in its line. The text after the last separator is a line too, so the result is never
  empty. \<open>cur\<close> holds the characters of the line being read, last first.
\<close>

fun split_from :: "string \<Rightarrow> string \<Rightarrow> string list" where
  "split_from cur [] = [rev cur]"
| "split_from cur [c] = (if c = CHR 0x0A then [rev cur, []] else [rev (c # cur)])"
| "split_from cur (c # d # ds) =
     (if c = CHR 0x0A then rev cur # split_from [] (d # ds)
      else if c = CHR 0x0D \<and> d = CHR 0x0A then rev cur # split_from [] ds
      else split_from (c # cur) (d # ds))"

definition split_lines :: "string \<Rightarrow> string list" where
  "split_lines text = split_from [] text"

text \<open>The class \<open>[A-Za-z0-9_.-]\<close>.\<close>

definition is_ident :: "char \<Rightarrow> bool" where
  "is_ident c = (c \<in> set (''abcdefghijklmnopqrstuvwxyz'' @ ''ABCDEFGHIJKLMNOPQRSTUVWXYZ''
                            @ ''0123456789'' @ ''_.-''))"

text \<open>
  \<open>/^([A-Za-z0-9_.-]+):\s*$/.exec(line)\<close>, giving group 1. The class has no colon in
  it, so the colon can only follow the longest run of class characters: giving
  characters of the \<open>+\<close> back never helps.
\<close>

definition filterMatch :: "string \<Rightarrow> string option" where
  "filterMatch line =
     (let name = takeWhile is_ident line; rest = dropWhile is_ident line
      in if name \<noteq> [] \<and> startsWith rest (CHR '':'') \<and> list_all is_space (tl rest)
         then Some name else None)"

text \<open>
  \<open>/^-\s*(.+?)\s*$/.exec(line)\<close>, giving group 1. After the dash, \<open>\s*\<close> takes all the
  white space there is and gives it back one character at a time (\<open>k\<close> counts down);
  for each \<open>k\<close> the lazy \<open>(.+?)\<close> takes one character and then one more at a time
  (\<open>n\<close> counts up) until the rest of the line is white space. The dot does not match a
  line terminator.
\<close>

definition lazy_dot_plus :: "string \<Rightarrow> string option" where
  "lazy_dot_plus r =
     map_option (\<lambda>n. take n r)
       (find (\<lambda>n. list_all (\<lambda>c. \<not> is_line_terminator c) (take n r) \<and> list_all is_space (drop n r))
          [1..<Suc (length r)])"

definition itemMatch :: "string \<Rightarrow> string option" where
  "itemMatch line =
     (if startsWith line (CHR ''-'') then
        (let rest = tl line; k0 = length (takeWhile is_space rest)
         in case find (\<lambda>k. lazy_dot_plus (drop k rest) \<noteq> None) (rev [0..<Suc k0]) of
              None \<Rightarrow> None
            | Some k \<Rightarrow> lazy_dot_plus (drop k rest))
      else None)"

text \<open>
  The object \<open>result = {}\<close>: its own properties in the order of their creation, each an
  array of patterns. Reading a property that the object does not own finds the
  properties of \<open>Object.prototype\<close>: functions, and the object \<open>__proto__\<close> gives.
\<close>

type_synonym jsobj = "(string \<times> string list) list"

definition object_prototype_props :: "string list" where
  "object_prototype_props =
     [''constructor'', ''__defineGetter__'', ''__defineSetter__'', ''hasOwnProperty'',
      ''__lookupGetter__'', ''__lookupSetter__'', ''isPrototypeOf'', ''propertyIsEnumerable'',
      ''toString'', ''valueOf'', ''__proto__'', ''toLocaleString'']"

datatype jsval = Undefined | Array "string list" | Inherited

definition get_prop :: "jsobj \<Rightarrow> string \<Rightarrow> jsval" where
  "get_prop obj k =
     (case map_of obj k of
        Some v \<Rightarrow> Array v
      | None \<Rightarrow> if k \<in> set object_prototype_props then Inherited else Undefined)"

text \<open>\<open>!v\<close>: only \<open>undefined\<close> is falsy here; an array is truthy even when empty.\<close>

fun falsy :: "jsval \<Rightarrow> bool" where
  "falsy Undefined = True"
| "falsy (Array v) = False"
| "falsy Inherited = False"

text \<open>\<open>obj[k].push(pat)\<close> on an own array.\<close>

fun push_own :: "jsobj \<Rightarrow> string \<Rightarrow> string \<Rightarrow> jsobj" where
  "push_own [] k pat = []"
| "push_own ((k', v) # obj) k pat =
     (if k' = k then (k', v @ [pat]) # obj else (k', v) # push_own obj k pat)"

text \<open>The quotes \<open>parseFilters\<close> strips: one pair of the same kind around the pattern.\<close>

definition strip_quotes :: "string \<Rightarrow> string" where
  "strip_quotes pat =
     (if (startsWith pat (CHR 0x27) \<and> endsWith pat (CHR 0x27))
         \<or> (startsWith pat (CHR 0x22) \<and> endsWith pat (CHR 0x22))
      then slice_1_m1 pat else pat)"

text \<open>The pattern a line gives when the loop takes it for a pattern line.\<close>

definition item_pattern :: "string \<Rightarrow> string option" where
  "item_pattern raw_line = map_option (\<lambda>m. strip_quotes (trim m)) (itemMatch (trim raw_line))"

text \<open>
  One turn of the loop of \<open>parseFilters\<close> on the state (\<open>result\<close>, \<open>current\<close>), where
  \<open>current\<close> is \<open>None\<close> for \<open>null\<close>. A name has one character at least, so \<open>current\<close> is
  truthy as soon as it is set.
\<close>

fun parse_line :: "jsobj \<times> string option \<Rightarrow> string \<Rightarrow> error + (jsobj \<times> string option)" where
  "parse_line (result, current) raw_line =
     (let line = trim raw_line in
      if line = [] then Inr (result, current)
      else case filterMatch line of
        Some name \<Rightarrow>
          Inr (if falsy (get_prop result name) then result @ [(name, [])] else result, Some name)
      | None \<Rightarrow>
          (case (itemMatch line, current) of
             (Some m, Some cur) \<Rightarrow>
               (let pat = strip_quotes (trim m) in
                case get_prop result cur of
                  Array v \<Rightarrow> Inr (push_own result cur pat, current)
                | Inherited \<Rightarrow> Inl TypeError
                | Undefined \<Rightarrow> Inl TypeError)
           | _ \<Rightarrow> Inr (result, current)))"

fun parse_lines :: "jsobj \<times> string option \<Rightarrow> string list \<Rightarrow> error + (jsobj \<times> string option)" where
  "parse_lines st [] = Inr st"
| "parse_lines st (l # ls) =
     (case parse_line st l of
        Inl e \<Rightarrow> Inl e
      | Inr st' \<Rightarrow> parse_lines st' ls)"

definition parseFilters :: "string \<Rightarrow> error + jsobj" where
  "parseFilters yamlLike =
     (case parse_lines ([], None) (split_lines yamlLike) of
        Inl e \<Rightarrow> Inl e
      | Inr (result, current) \<Rightarrow> Inr result)"

subsection \<open>\<open>main\<close>\<close>

text \<open>
  \<open>Object.keys\<close>: the names that are array indices (\<open>0\<close>, or digits with no leading
  zero, below \<open>2^32 - 1\<close>) come first, by value; the other names follow in the order of
  their creation.
\<close>

definition digit_val :: "char \<Rightarrow> int" where
  "digit_val c = of_char c - 48"

definition index_val :: "string \<Rightarrow> int" where
  "index_val k = foldl (\<lambda>n c. 10 * n + digit_val c) 0 k"

definition is_array_index :: "string \<Rightarrow> bool" where
  "is_array_index k =
     (k \<noteq> [] \<and> list_all (\<lambda>c. c \<in> set ''0123456789'') k
      \<and> (k = ''0'' \<or> \<not> startsWith k (CHR ''0'')) \<and> index_val k < 4294967295)"

definition Object_keys :: "jsobj \<Rightarrow> string list" where
  "Object_keys obj =
     sort_key index_val (filter is_array_index (map fst obj))
     @ filter (\<lambda>k. \<not> is_array_index k) (map fst obj)"

text \<open>\<open>getInput(name, required)\<close>, from the value of the environment variable (\<open>None\<close>
  when it is not set).\<close>

definition getInput :: "string option \<Rightarrow> bool \<Rightarrow> error + string" where
  "getInput val required =
     (case val of
        None \<Rightarrow> if required then Inl InputRequired else Inr []
      | Some v \<Rightarrow> if required \<and> (v = [] \<or> trim v = []) then Inl InputRequired else Inr v)"

text \<open>\<open>filtersMap[name] || []\<close> for a name \<open>Object.keys\<close> gave.\<close>

definition own_patterns :: "jsobj \<Rightarrow> string \<Rightarrow> string list" where
  "own_patterns obj name = (case map_of obj name of Some v \<Rightarrow> v | None \<Rightarrow> [])"

text \<open>
  The last loop of \<open>main\<close>: the outputs \<open>setOutput\<close> has written, in order, and the
  exception that stopped the loop, if any. An output stays written when a later filter
  throws.
\<close>

fun emit_filters :: "jsobj \<Rightarrow> string list \<Rightarrow> string list \<Rightarrow> (string \<times> string) list \<times> error option" where
  "emit_filters filtersMap changedFiles [] = ([], None)"
| "emit_filters filtersMap changedFiles (name # names) =
     (case compilePatterns (own_patterns filtersMap name) of
        Inl e \<Rightarrow> ([], Some e)
      | Inr c \<Rightarrow>
          (let result = list_ex (\<lambda>f. fileMatchesFilter f c) changedFiles;
               (outs, err) = emit_filters filtersMap changedFiles names
           in ((name, if result then ''true'' else ''false'') # outs, err)))"

text \<open>
  \<open>main\<close>, from the value of \<open>INPUT_FILTERS\<close> and the outcome of
  \<open>getChangedFilesFromPR\<close>: the outputs written and the exception caught, if any (the
  handler logs it and exits with status 0).
\<close>

definition main :: "string option \<Rightarrow> error + string list \<Rightarrow> (string \<times> string) list \<times> error option" where
  "main filtersEnv changed =
     (case getInput filtersEnv True of
        Inl e \<Rightarrow> ([], Some e)
      | Inr filtersInput \<Rightarrow>
          (case parseFilters filtersInput of
             Inl e \<Rightarrow> ([], Some e)
           | Inr filtersMap \<Rightarrow>
               (let filterNames = Object_keys filtersMap in
                if filterNames = [] then ([], Some NoFiltersDefined)
                else case changed of
                  Inl e \<Rightarrow> ([], Some e)
                | Inr changedFiles \<Rightarrow> emit_filters filtersMap changedFiles filterNames)))"

section \<open>Properties\<close>

subsection \<open>The compiled pattern\<close>

text \<open>Every source \<open>globToRegex\<close> writes is read by \<open>rx_parse\<close>: \<open>new RegExp\<close> never throws here.\<close>

lemma loop_no_star:
  "\<not> startsWith rest (CHR ''*'') \<Longrightarrow> \<not> startsWith (globToRegex_loop g @ rest) (CHR ''*'')"
  by (induction g rule: globToRegex_loop.induct) (auto simp: escapeRegexChar_def)

lemma parse_piece_star2: "rx_parse (''.*'' @ t) = rx_cons (Star Dot) (rx_parse t)"
  by simp

lemma parse_piece_star: "rx_parse (''[^/]*'' @ t) = rx_cons (Star NotSlash) (rx_parse t)"
  by simp

lemma parse_piece_q:
  "\<not> startsWith t (CHR ''*'') \<Longrightarrow> rx_parse (''[^/]'' @ t) = rx_cons (One NotSlash) (rx_parse t)"
  by simp

lemma parse_piece_chr:
  "ch \<noteq> CHR ''*'' \<Longrightarrow> ch \<noteq> CHR ''?'' \<Longrightarrow> \<not> startsWith t (CHR ''*'')
   \<Longrightarrow> rx_parse (escapeRegexChar ch @ t) = rx_cons (One (Chr ch)) (rx_parse t)"
  by (auto simp: escapeRegexChar_def escaped_chars_def syntax_chars_def)

lemma parse_loop:
  "\<not> startsWith rest (CHR ''*'') \<Longrightarrow>
   rx_parse (globToRegex_loop g @ rest) = map_option ((@) (glob_items g)) (rx_parse rest)"
proof (induction g rule: globToRegex_loop.induct)
  case 1
  then show ?case by (simp add: option.map_ident)
next
  case (2 ch)
  then show ?case
    using parse_piece_star [of rest] parse_piece_q [of rest] parse_piece_chr [of ch rest]
    by (cases "rx_parse rest") (auto simp: rx_cons_def simp del: rx_parse.simps)
next
  case (3 ch nxt r)
  have ns: "\<not> startsWith (globToRegex_loop (nxt # r) @ rest) (CHR ''*'')"
    using 3 loop_no_star by blast
  show ?case
    using 3 ns parse_piece_star2 [of "globToRegex_loop r @ rest"]
      parse_piece_star [of "globToRegex_loop (nxt # r) @ rest"]
      parse_piece_q [of "globToRegex_loop (nxt # r) @ rest"]
      parse_piece_chr [of ch "globToRegex_loop (nxt # r) @ rest"]
    by (cases "rx_parse rest") (auto simp: rx_cons_def simp del: rx_parse.simps)
qed

lemma rx_parse_globToRegex: "rx_parse (globToRegex g) = Some (Bol # glob_items g @ [Eol])"
  using parse_loop [of "''$''" g] by (simp add: globToRegex_def rx_cons_def)

lemma compilePattern_ok:
  "compilePattern r =
     Inr \<lparr>negative = startsWith (trim r) (CHR ''!''),
          rx = Bol # glob_items (if startsWith (trim r) (CHR ''!'') then trim (tl (trim r)) else trim r) @ [Eol],
          raw = r\<rparr>"
  by (simp add: compilePattern_def Let_def rx_parse_globToRegex)

lemma mapM_total: "(\<And>x. f x = Inr (g x)) \<Longrightarrow> mapM f xs = Inr (map g xs)"
  by (induction xs) simp_all

lemma compilePatterns_ok:
  "\<exists>ps. compilePatterns raws = Inr \<lparr>patterns = ps, hasPositive = list_ex (\<lambda>p. \<not> negative p) ps\<rparr>
        \<and> length ps = length raws"
  using mapM_total [of compilePattern _ raws, OF compilePattern_ok]
  by (simp add: compilePatterns_def)

subsection \<open>Anchors\<close>

lemma rx_match_last_Eol:
  "rx_match r b s = Some rest \<Longrightarrow> r \<noteq> [] \<Longrightarrow> last r = Eol \<Longrightarrow> rest = []"
  by (induction r b s rule: rx_match.induct) (auto split: if_splits option.splits)

lemma rx_match_Eol: "rx_match (r @ [Eol]) b s = Some rest \<Longrightarrow> rest = []"
  using rx_match_last_Eol [of "r @ [Eol]" b s rest] by simp

lemma rx_search_Bol: "rx_search (Bol # r) (Suc i) s = None"
  by (induction s arbitrary: i) simp_all

lemma rx_exec_anchored:
  assumes "rx_exec (Bol # r @ [Eol]) s = Some (i, j)"
  shows "i = 0 \<and> j = length s"
proof (cases s)
  case Nil
  with assms show ?thesis
    by (auto simp: rx_exec_def split: option.splits)
next
  case (Cons c cs)
  with assms rx_match_Eol [of "Bol # r" True s] show ?thesis
    by (auto simp: rx_exec_def rx_search_Bol split: option.splits if_splits)
qed

subsection \<open>The verdict\<close>

lemma verdict_foldl:
  "foldl (\<lambda>included p. if t p then (if negative p then False else True) else included) init ps =
     (if filter t ps = [] then init else \<not> negative (last (filter t ps)))"
  by (induction ps rule: rev_induct) auto


text \<open>
  C1. The verdict of \<open>fileMatchesFilter\<close> is decided by the last pattern of the list that
  matches the file: it is \<open>\<not> negative\<close> of that pattern, whatever the patterns before it
  said. For the patterns \<open>*.txt\<close>, \<open>!secret.txt\<close> the file \<open>secret.txt\<close> is not included.
\<close>

theorem last_match_wins:
  "(filter (\<lambda>p. rx_test (rx p) file) (patterns c) \<noteq> [] \<longrightarrow>
      fileMatchesFilter file c = (\<not> negative (last (filter (\<lambda>p. rx_test (rx p) file) (patterns c)))))
   \<and> (case compilePatterns [''*.txt'', ''!secret.txt''] of
        Inr c0 \<Rightarrow> fileMatchesFilter ''secret.txt'' c0 = False
      | Inl e \<Rightarrow> False)"
proof
  show "filter (\<lambda>p. rx_test (rx p) file) (patterns c) \<noteq> [] \<longrightarrow>
      fileMatchesFilter file c = (\<not> negative (last (filter (\<lambda>p. rx_test (rx p) file) (patterns c))))"
    by (simp add: fileMatchesFilter_def verdict_foldl)
  show "case compilePatterns [''*.txt'', ''!secret.txt''] of
        Inr c0 \<Rightarrow> fileMatchesFilter ''secret.txt'' c0 = False
      | Inl e \<Rightarrow> False"
    by code_simp
qed

theorem last_match_wins_witness:
  "filter (\<lambda>p. rx_test (rx p) ''a.txt'')
     (patterns \<lparr>patterns = [\<lparr>negative = True, rx = [Bol, One (Chr (CHR ''a'')), Star Dot, Eol], raw = ''!a**''\<rparr>,
                            \<lparr>negative = False, rx = [Bol, Star NotSlash, Eol], raw = ''*''\<rparr>,
                            \<lparr>negative = True, rx = [Bol, One (Chr (CHR ''b'')), Eol], raw = ''!b''\<rparr>],
                hasPositive = True\<rparr>) \<noteq> []
   \<and> fileMatchesFilter ''a.txt''
       \<lparr>patterns = [\<lparr>negative = True, rx = [Bol, One (Chr (CHR ''a'')), Star Dot, Eol], raw = ''!a**''\<rparr>,
                    \<lparr>negative = False, rx = [Bol, Star NotSlash, Eol], raw = ''*''\<rparr>,
                    \<lparr>negative = True, rx = [Bol, One (Chr (CHR ''b'')), Eol], raw = ''!b''\<rparr>],
        hasPositive = True\<rparr>"
proof -
  let ?c = "\<lparr>patterns = [\<lparr>negative = True, rx = [Bol, One (Chr (CHR ''a'')), Star Dot, Eol], raw = ''!a**''\<rparr>,
                    \<lparr>negative = False, rx = [Bol, Star NotSlash, Eol], raw = ''*''\<rparr>,
                    \<lparr>negative = True, rx = [Bol, One (Chr (CHR ''b'')), Eol], raw = ''!b''\<rparr>],
        hasPositive = True\<rparr>"
  have f: "filter (\<lambda>p. rx_test (rx p) ''a.txt'') (patterns ?c)
           = [\<lparr>negative = True, rx = [Bol, One (Chr (CHR ''a'')), Star Dot, Eol], raw = ''!a**''\<rparr>,
              \<lparr>negative = False, rx = [Bol, Star NotSlash, Eol], raw = ''*''\<rparr>]"
    by code_simp
  show ?thesis
    using last_match_wins [of "''a.txt''" ?c] unfolding f by simp
qed

text \<open>
  C2. When no pattern of a compiled list matches the file, the verdict is the default:
  not included when the list has a pattern that is not negated, included when every
  pattern of the list is negated.
\<close>

theorem default_verdict:
  assumes "compilePatterns raws = Inr c"
    and "\<forall>p\<in>set (patterns c). \<not> rx_test (rx p) file"
  shows "((\<exists>p\<in>set (patterns c). \<not> negative p) \<longrightarrow> fileMatchesFilter file c = False)
       \<and> ((\<forall>p\<in>set (patterns c). negative p) \<longrightarrow> fileMatchesFilter file c = True)"
proof -
  have h: "hasPositive c = list_ex (\<lambda>p. \<not> negative p) (patterns c)"
    using assms(1) by (auto simp: compilePatterns_def split: sum.splits)
  have "filter (\<lambda>p. rx_test (rx p) file) (patterns c) = []"
    using assms(2) by (simp add: filter_empty_conv)
  then have "fileMatchesFilter file c = (\<not> hasPositive c)"
    by (simp add: fileMatchesFilter_def verdict_foldl)
  with h show ?thesis
    by (auto simp: list_ex_iff)
qed

theorem default_verdict_witness:
  "compilePatterns [''docs/**'', ''!docs/*.md''] =
     Inr \<lparr>patterns = [\<lparr>negative = False,
                        rx = [Bol, One (Chr CHR ''d''), One (Chr CHR ''o''), One (Chr CHR ''c''), One (Chr CHR ''s''),
                              One (Chr CHR ''/''), Star Dot, Eol],
                        raw = ''docs/**''\<rparr>,
                       \<lparr>negative = True,
                        rx = [Bol, One (Chr CHR ''d''), One (Chr CHR ''o''), One (Chr CHR ''c''), One (Chr CHR ''s''),
                              One (Chr CHR ''/''), Star NotSlash, One (Chr CHR ''.''), One (Chr CHR ''m''),
                              One (Chr CHR ''d''), Eol],
                        raw = ''!docs/*.md''\<rparr>],
          hasPositive = True\<rparr>
   \<and> \<not> fileMatchesFilter ''src/a.c''
        \<lparr>patterns = [\<lparr>negative = False,
                        rx = [Bol, One (Chr CHR ''d''), One (Chr CHR ''o''), One (Chr CHR ''c''), One (Chr CHR ''s''),
                              One (Chr CHR ''/''), Star Dot, Eol],
                        raw = ''docs/**''\<rparr>,
                       \<lparr>negative = True,
                        rx = [Bol, One (Chr CHR ''d''), One (Chr CHR ''o''), One (Chr CHR ''c''), One (Chr CHR ''s''),
                              One (Chr CHR ''/''), Star NotSlash, One (Chr CHR ''.''), One (Chr CHR ''m''),
                              One (Chr CHR ''d''), Eol],
                        raw = ''!docs/*.md''\<rparr>],
          hasPositive = True\<rparr>
   \<and> compilePatterns [''!a''] =
     Inr \<lparr>patterns = [\<lparr>negative = True, rx = [Bol, One (Chr CHR ''a''), Eol], raw = ''!a''\<rparr>],
          hasPositive = False\<rparr>
   \<and> fileMatchesFilter ''src/a.c''
        \<lparr>patterns = [\<lparr>negative = True, rx = [Bol, One (Chr CHR ''a''), Eol], raw = ''!a''\<rparr>],
          hasPositive = False\<rparr>"
proof -
  let ?c1 = "\<lparr>patterns = [\<lparr>negative = False,
                        rx = [Bol, One (Chr CHR ''d''), One (Chr CHR ''o''), One (Chr CHR ''c''), One (Chr CHR ''s''),
                              One (Chr CHR ''/''), Star Dot, Eol],
                        raw = ''docs/**''\<rparr>,
                       \<lparr>negative = True,
                        rx = [Bol, One (Chr CHR ''d''), One (Chr CHR ''o''), One (Chr CHR ''c''), One (Chr CHR ''s''),
                              One (Chr CHR ''/''), Star NotSlash, One (Chr CHR ''.''), One (Chr CHR ''m''),
                              One (Chr CHR ''d''), Eol],
                        raw = ''!docs/*.md''\<rparr>],
          hasPositive = True\<rparr>"
  let ?c2 = "\<lparr>patterns = [\<lparr>negative = True, rx = [Bol, One (Chr CHR ''a''), Eol], raw = ''!a''\<rparr>],
          hasPositive = False\<rparr>"
  have a1: "compilePatterns [''docs/**'', ''!docs/*.md''] = Inr ?c1"
    by code_simp
  have b1: "\<forall>p\<in>set (patterns ?c1). \<not> rx_test (rx p) ''src/a.c''"
    by code_simp
  have a2: "compilePatterns [''!a''] = Inr ?c2"
    by code_simp
  have b2: "\<forall>p\<in>set (patterns ?c2). \<not> rx_test (rx p) ''src/a.c''"
    by code_simp
  show ?thesis
    using default_verdict [OF a1 b1] default_verdict [OF a2 b2] a1 a2 by simp
qed

subsection \<open>Patterns and paths\<close>

lemma rx_test_empty_pattern: "rx_test [Bol, Eol] path = (path = [])"
  by (cases path) (simp_all add: rx_test_def rx_exec_def rx_search_Bol)

lemma trim_Nil: "trim [] = []"
  by (simp add: trim_def)

text \<open>
  C3 as stated fails: a filter with no patterns has no positive pattern, so the default
  verdict is "included", and \<open>main\<close> reports \<open>true\<close> for it as soon as one file changed.
\<close>

theorem empty_filter_counterexample:
  "(case compilePatterns [] of Inr c \<Rightarrow> fileMatchesFilter ''README.md'' c | Inl e \<Rightarrow> False)
   \<and> main (Some ''docs:'') (Inr [''README.md'']) = ([(''docs'', ''true'')], None)"
  by code_simp

text \<open>
  C3, amended. The empty pattern list compiles to a filter that includes every file;
  under the quantifier \<open>some\<close> its result is true exactly when the list of changed files
  is not empty.
\<close>

theorem empty_filter_includes:
  "compilePatterns [] = Inr \<lparr>patterns = [], hasPositive = False\<rparr>
   \<and> fileMatchesFilter file \<lparr>patterns = [], hasPositive = False\<rparr>
   \<and> list_ex (\<lambda>f. fileMatchesFilter f \<lparr>patterns = [], hasPositive = False\<rparr>) changedFiles
       = (changedFiles \<noteq> [])"
  by (cases changedFiles) (simp_all add: compilePatterns_def fileMatchesFilter_def)

text \<open>
  C4 as stated fails: \<open>src/**/*.go\<close> is compiled to \<open>^src\/.*\/[^/]*\.go$\<close>, which asks for
  two slashes, so the direct child \<open>src/c.go\<close> does not match.
\<close>

theorem double_star_counterexample:
  "(case compilePattern ''src/**/*.go'' of
      Inr p \<Rightarrow> \<not> rx_test (rx p) ''src/c.go''
    | Inl e \<Rightarrow> False)"
  by code_simp

text \<open>
  C4, amended. \<open>**\<close> matches any run of characters, slashes included, and the slashes
  written around it stay: \<open>src/**/*.go\<close> matches \<open>src/a/b/c.go\<close>, \<open>src/a/c.go\<close> and
  \<open>src//c.go\<close> but not \<open>src/c.go\<close>; \<open>src/*.go\<close> matches \<open>src/c.go\<close> but not \<open>src/a/b.go\<close>.
\<close>

theorem double_star_crosses_directories:
  "(case compilePattern ''src/**/*.go'' of
      Inr p \<Rightarrow> rx_test (rx p) ''src/a/b/c.go'' \<and> rx_test (rx p) ''src/a/c.go''
                \<and> rx_test (rx p) ''src//c.go'' \<and> \<not> rx_test (rx p) ''src/c.go''
    | Inl e \<Rightarrow> False)
   \<and> (case compilePattern ''src/*.go'' of
      Inr p \<Rightarrow> \<not> rx_test (rx p) ''src/a/b.go'' \<and> rx_test (rx p) ''src/c.go''
    | Inl e \<Rightarrow> False)"
  by code_simp

text \<open>
  C6 as stated fails: the empty pattern, a pattern of white space and the pattern \<open>!\<close>
  all compile, to the expression \<open>^$\<close>.
\<close>

theorem compile_empty_counterexample:
  "compilePattern [] = Inr \<lparr>negative = False, rx = [Bol, Eol], raw = []\<rparr>
   \<and> compilePattern ''   '' = Inr \<lparr>negative = False, rx = [Bol, Eol], raw = ''   ''\<rparr>
   \<and> compilePattern ''!'' = Inr \<lparr>negative = True, rx = [Bol, Eol], raw = ''!''\<rparr>"
  by code_simp

text \<open>
  C6, amended. Compiling a pattern never fails; the pattern is negated exactly when its
  trimmed text starts with \<open>!\<close>; and a pattern whose trimmed text is empty or is \<open>!\<close>
  alone matches the empty path and nothing else.
\<close>

theorem compile_never_fails:
  "(\<exists>r. compilePattern raw_in =
          Inr \<lparr>negative = startsWith (trim raw_in) (CHR ''!''), rx = r, raw = raw_in\<rparr>)
   \<and> (trim raw_in = [] \<or> trim raw_in = ''!'' \<longrightarrow>
        (\<exists>p. compilePattern raw_in = Inr p \<and> (\<forall>path. rx_test (rx p) path = (path = []))))"
proof
  show "\<exists>r. compilePattern raw_in =
          Inr \<lparr>negative = startsWith (trim raw_in) (CHR ''!''), rx = r, raw = raw_in\<rparr>"
    by (simp add: compilePattern_ok)
  show "trim raw_in = [] \<or> trim raw_in = ''!'' \<longrightarrow>
        (\<exists>p. compilePattern raw_in = Inr p \<and> (\<forall>path. rx_test (rx p) path = (path = [])))"
    by (auto simp: compilePattern_ok rx_test_empty_pattern trim_Nil)
qed

theorem compile_never_fails_witness:
  "trim '' ! '' = ''!''
   \<and> (\<exists>p. compilePattern '' ! '' = Inr p \<and> (\<forall>path. rx_test (rx p) path = (path = [])))"
proof -
  have t: "trim '' ! '' = ''!''"
    by code_simp
  show ?thesis
    using compile_never_fails [of "'' ! ''"] t by simp
qed

lemma rx_test_question: "rx_test [Bol, One NotSlash, Eol] path = (length path = 1 \<and> path \<noteq> ''/'')"
proof (cases path)
  case Nil
  then show ?thesis by (simp add: rx_test_def rx_exec_def)
next
  case (Cons c cs)
  then show ?thesis
    by (cases cs) (auto simp: rx_test_def rx_exec_def rx_search_Bol)
qed

text \<open>
  C8. \<open>file?.txt\<close> matches \<open>file1.txt\<close> and neither \<open>file.txt\<close> nor \<open>file12.txt\<close> (nor
  \<open>file/.txt\<close>); the pattern \<open>?\<close> matches exactly the paths of one character other than
  the slash; and whenever a compiled pattern matches in a path, the match starts at
  index 0 and ends at the end of the path.
\<close>

theorem question_mark_and_anchors:
  "(case compilePattern ''file?.txt'' of
      Inr p \<Rightarrow> rx_test (rx p) ''file1.txt'' \<and> \<not> rx_test (rx p) ''file.txt''
                \<and> \<not> rx_test (rx p) ''file12.txt'' \<and> \<not> rx_test (rx p) ''file/.txt''
    | Inl e \<Rightarrow> False)
   \<and> (case compilePattern ''?'' of
      Inr p \<Rightarrow> rx_test (rx p) path = (length path = 1 \<and> path \<noteq> ''/'')
    | Inl e \<Rightarrow> False)
   \<and> (compilePattern raw_in = Inr q \<and> rx_exec (rx q) path = Some (i, j) \<longrightarrow> i = 0 \<and> j = length path)"
proof (intro conjI)
  show "case compilePattern ''file?.txt'' of
      Inr p \<Rightarrow> rx_test (rx p) ''file1.txt'' \<and> \<not> rx_test (rx p) ''file.txt''
                \<and> \<not> rx_test (rx p) ''file12.txt'' \<and> \<not> rx_test (rx p) ''file/.txt''
    | Inl e \<Rightarrow> False"
    by code_simp
  have "compilePattern ''?'' = Inr \<lparr>negative = False, rx = [Bol, One NotSlash, Eol], raw = ''?''\<rparr>"
    by code_simp
  then show "case compilePattern ''?'' of
      Inr p \<Rightarrow> rx_test (rx p) path = (length path = 1 \<and> path \<noteq> ''/'')
    | Inl e \<Rightarrow> False"
    by (simp add: rx_test_question)
  show "compilePattern raw_in = Inr q \<and> rx_exec (rx q) path = Some (i, j) \<longrightarrow> i = 0 \<and> j = length path"
    using rx_exec_anchored [of _ path i j] by (auto simp: compilePattern_ok)
qed

theorem question_mark_and_anchors_witness:
  "compilePattern ''file?.txt'' =
     Inr \<lparr>negative = False,
          rx = [Bol, One (Chr CHR ''f''), One (Chr CHR ''i''), One (Chr CHR ''l''), One (Chr CHR ''e''),
                One NotSlash, One (Chr CHR ''.''), One (Chr CHR ''t''), One (Chr CHR ''x''),
                One (Chr CHR ''t''), Eol],
          raw = ''file?.txt''\<rparr>
   \<and> rx_exec [Bol, One (Chr CHR ''f''), One (Chr CHR ''i''), One (Chr CHR ''l''), One (Chr CHR ''e''),
                One NotSlash, One (Chr CHR ''.''), One (Chr CHR ''t''), One (Chr CHR ''x''),
                One (Chr CHR ''t''), Eol] ''file1.txt'' = Some (0, 9)
   \<and> (9::nat) = length ''file1.txt''"
proof -
  let ?q = "\<lparr>negative = False,
          rx = [Bol, One (Chr CHR ''f''), One (Chr CHR ''i''), One (Chr CHR ''l''), One (Chr CHR ''e''),
                One NotSlash, One (Chr CHR ''.''), One (Chr CHR ''t''), One (Chr CHR ''x''),
                One (Chr CHR ''t''), Eol],
          raw = ''file?.txt''\<rparr>"
  have a: "compilePattern ''file?.txt'' = Inr ?q"
    by code_simp
  have b: "rx_exec (rx ?q) ''file1.txt'' = Some (0, 9)"
    by code_simp
  have "(0::nat) = 0 \<and> (9::nat) = length ''file1.txt''"
    using question_mark_and_anchors [of "''file1.txt''" "''file?.txt''" ?q 0 9] a b by blast
  with a b show ?thesis by simp
qed

subsection \<open>The object \<open>parseFilters\<close> builds\<close>

lemma push_own_keys: "map fst (push_own obj k pat) = map fst obj"
  by (induction obj) auto

lemma push_own_other: "k' \<noteq> k \<Longrightarrow> map_of (push_own obj k pat) k' = map_of obj k'"
  by (induction obj) auto

lemma push_own_same: "map_of obj k = Some v \<Longrightarrow> map_of (push_own obj k pat) k = Some (v @ [pat])"
  by (induction obj) auto

lemma get_prop_Array: "(get_prop obj k = Array v) = (map_of obj k = Some v)"
  by (auto simp: get_prop_def split: option.splits)

lemma falsy_get_prop:
  "falsy (get_prop obj k) = (map_of obj k = None \<and> k \<notin> set object_prototype_props)"
  by (auto simp: get_prop_def split: option.splits)

lemma map_of_None_keys: "(map_of obj k = None) = (k \<notin> set (map fst obj))"
  by (simp add: map_of_eq_None_iff)

text \<open>The names of an object are distinct, and a turn of the loop keeps them so.\<close>

lemma parse_line_distinct:
  assumes "parse_line (result, current) l = Inr (result', current')"
    and "distinct (map fst result)"
  shows "distinct (map fst result')"
  using assms
  by (auto simp: Let_def falsy_get_prop map_of_None_keys push_own_keys
           split: if_splits option.splits jsval.splits)

lemma parse_lines_distinct:
  "parse_lines (result, current) ls = Inr (result', current') \<Longrightarrow> distinct (map fst result)
   \<Longrightarrow> distinct (map fst result')"
proof (induction ls arbitrary: result current)
  case Nil
  then show ?case by simp
next
  case (Cons l ls)
  then obtain r1 c1 where s1: "parse_line (result, current) l = Inr (r1, c1)"
    and s2: "parse_lines (r1, c1) ls = Inr (result', current')"
    by (auto split: sum.splits)
  from parse_line_distinct [OF s1 Cons.prems(2)] Cons.IH [OF s2] show ?case by simp
qed

lemma parseFilters_distinct: "parseFilters text = Inr fm \<Longrightarrow> distinct (map fst fm)"
  using parse_lines_distinct [of "[]" None "split_lines text" fm]
  by (auto simp: parseFilters_def split: sum.splits)

subsection \<open>\<open>Object.keys\<close>\<close>

lemma Object_keys_set: "set (Object_keys obj) = fst ` set obj"
  by (auto simp: Object_keys_def)

lemma Object_keys_distinct: "distinct (map fst obj) \<Longrightarrow> distinct (Object_keys obj)"
  by (auto simp: Object_keys_def distinct_map_filter)

lemma Object_keys_Nil: "(Object_keys obj = []) = (obj = [])"
  using Object_keys_set [of obj] by (cases obj) auto

subsection \<open>The outputs\<close>

lemma emit_filters_outputs:
  "\<exists>outs. emit_filters fm changedFiles names = (outs, None)
     \<and> map fst outs = names
     \<and> (\<forall>(name, v)\<in>set outs. \<exists>c. compilePatterns (own_patterns fm name) = Inr c
           \<and> v = (if \<exists>f\<in>set changedFiles. fileMatchesFilter f c then ''true'' else ''false''))"
proof (induction names)
  case Nil
  then show ?case by simp
next
  case (Cons n ns)
  obtain c where c: "compilePatterns (own_patterns fm n) = Inr c"
    using compilePatterns_ok [of "own_patterns fm n"] by blast
  from Cons obtain outs where o: "emit_filters fm changedFiles ns = (outs, None)"
    "map fst outs = ns"
    "\<forall>(name, v)\<in>set outs. \<exists>c. compilePatterns (own_patterns fm name) = Inr c
           \<and> v = (if \<exists>f\<in>set changedFiles. fileMatchesFilter f c then ''true'' else ''false'')"
    by blast
  show ?case
    using c o by (simp add: list_ex_iff)
qed

text \<open>
  C5. When the input is there and parses to a non-empty object, \<open>main\<close> throws nothing and
  writes exactly one output per filter name of the object; the output of a filter is
  \<open>true\<close> exactly when some changed file is included by its compiled patterns, and so
  it is \<open>false\<close> for every filter when no file changed.
\<close>

theorem any_quantifier:
  assumes "getInput env True = Inr txt" and "parseFilters txt = Inr fm" and "fm \<noteq> []"
  shows "\<exists>outs. main env (Inr changedFiles) = (outs, None)
     \<and> distinct (map fst outs) \<and> set (map fst outs) = fst ` set fm
     \<and> (\<forall>(name, v)\<in>set outs. \<exists>c. compilePatterns (own_patterns fm name) = Inr c
           \<and> v = (if \<exists>f\<in>set changedFiles. fileMatchesFilter f c then ''true'' else ''false''))
     \<and> (changedFiles = [] \<longrightarrow> (\<forall>(name, v)\<in>set outs. v = ''false''))"
proof -
  obtain outs where o: "emit_filters fm changedFiles (Object_keys fm) = (outs, None)"
    "map fst outs = Object_keys fm"
    "\<forall>(name, v)\<in>set outs. \<exists>c. compilePatterns (own_patterns fm name) = Inr c
           \<and> v = (if \<exists>f\<in>set changedFiles. fileMatchesFilter f c then ''true'' else ''false'')"
    using emit_filters_outputs [of fm changedFiles "Object_keys fm"] by blast
  have m: "main env (Inr changedFiles) = (outs, None)"
    using assms o(1) by (simp add: main_def Object_keys_Nil)
  have d: "distinct (map fst outs)"
    using o(2) Object_keys_distinct [OF parseFilters_distinct [OF assms(2)]] by simp
  have s: "set (map fst outs) = fst ` set fm"
    using o(2) Object_keys_set [of fm] by simp
  have e: "changedFiles = [] \<longrightarrow> (\<forall>(name, v)\<in>set outs. v = ''false'')"
    using o(3) by fastforce
  from m d s o(3) e show ?thesis by blast
qed


theorem any_quantifier_witness:
  "\<exists>outs. main (Some (''docs:'' @ [CHR 0x0A] @ ''  - docs/**'' @ [CHR 0x0A] @ ''code:'' @ [CHR 0x0A]
                        @ ''  - src/**'' @ [CHR 0x0A] @ ''  - !src/**/*.md''))
             (Inr [''docs/readme.md'', ''src/x/notes.md'']) = (outs, None)
     \<and> distinct (map fst outs) \<and> set (map fst outs) = {''docs'', ''code''}
     \<and> list_all (\<lambda>(name, v). v = (if name = ''docs'' then ''true'' else ''false'')) outs"
proof -
  let ?txt = "''docs:'' @ [CHR 0x0A] @ ''  - docs/**'' @ [CHR 0x0A] @ ''code:'' @ [CHR 0x0A]
                        @ ''  - src/**'' @ [CHR 0x0A] @ ''  - !src/**/*.md''"
  let ?fm = "[(''docs'', [''docs/**'']), (''code'', [''src/**'', ''!src/**/*.md''])]"
  let ?files = "[''docs/readme.md'', ''src/x/notes.md'']"
  have a: "getInput (Some ?txt) True = Inr ?txt"
    by code_simp
  have b: "parseFilters ?txt = Inr ?fm"
    by code_simp
  have c: "?fm \<noteq> []"
    by simp
  have d: "(case compilePatterns (own_patterns ?fm ''docs'') of
              Inr c \<Rightarrow> \<exists>f\<in>set ?files. fileMatchesFilter f c | Inl e \<Rightarrow> False)"
    by code_simp
  have e: "(case compilePatterns (own_patterns ?fm ''code'') of
              Inr c \<Rightarrow> \<not> (\<exists>f\<in>set ?files. fileMatchesFilter f c) | Inl e \<Rightarrow> False)"
    by code_simp
  obtain outs where o: "main (Some ?txt) (Inr ?files) = (outs, None)"
    "distinct (map fst outs)" "set (map fst outs) = fst ` set ?fm"
    "\<forall>(name, v)\<in>set outs. \<exists>c. compilePatterns (own_patterns ?fm name) = Inr c
           \<and> v = (if \<exists>f\<in>set ?files. fileMatchesFilter f c then ''true'' else ''false'')"
    using any_quantifier [OF a b c, of ?files] by (elim exE conjE) (rule that)
  have "\<forall>(name, v)\<in>set outs. v = (if name = ''docs'' then ''true'' else ''false'')"
  proof (clarify)
    fix name v
    assume nv: "(name, v) \<in> set outs"
    then have "name \<in> fst ` set ?fm"
      using o(3) by force
    then have n: "name = ''docs'' \<or> name = ''code''"
      by simp
    from nv o(4) obtain c where
      cc: "compilePatterns (own_patterns ?fm name) = Inr c"
        "v = (if \<exists>f\<in>set ?files. fileMatchesFilter f c then ''true'' else ''false'')"
      by blast
    from n show "v = (if name = ''docs'' then ''true'' else ''false'')"
    proof
      assume "name = ''docs''"
      with cc d show ?thesis by simp
    next
      assume "name = ''code''"
      with cc e show ?thesis by simp
    qed
  qed
  then have "list_all (\<lambda>(name, v). v = (if name = ''docs'' then ''true'' else ''false'')) outs"
    by (simp add: list_all_iff)
  with o(1,2,3) show ?thesis
    by auto
qed

subsection \<open>Filter names and pattern lines\<close>

lemma filterMatch_Nil: "filterMatch [] = None"
  by (simp add: filterMatch_def)

lemma itemMatch_Nil: "itemMatch [] = None"
  by (simp add: itemMatch_def)

lemma parse_line_no_name:
  assumes "filterMatch (trim x) = None"
  shows "parse_line (result, None) x = Inr (result, None)"
  using assms by (auto simp: Let_def split: option.splits)

lemma parse_lines_no_name:
  "\<forall>x\<in>set ls. filterMatch (trim x) = None \<Longrightarrow> parse_lines (result, None) ls = Inr (result, None)"
  by (induction ls) (simp_all add: parse_line_no_name del: parse_line.simps)

lemma parse_lines_append:
  "parse_lines st (xs @ ys) =
     (case parse_lines st xs of Inl e \<Rightarrow> Inl e | Inr st' \<Rightarrow> parse_lines st' ys)"
  by (induction xs arbitrary: st) (auto split: sum.splits simp del: parse_line.simps)

text \<open>The lines before the first filter name change nothing: neither the object nor
  the outcome.\<close>

lemma orphan_lines_ignored:
  "\<forall>x\<in>set pre. filterMatch (trim x) = None
   \<Longrightarrow> parse_lines (result, None) (pre @ rest) = parse_lines (result, None) rest"
  by (simp add: parse_lines_append parse_lines_no_name)

text \<open>A text without a filter name: \<open>main\<close> throws before it writes an output.\<close>

lemma no_filter_name_fails:
  assumes "\<forall>x\<in>set (split_lines txt). filterMatch (trim x) = None"
  shows "main (Some txt) changed = ([], Some InputRequired)
       \<or> main (Some txt) changed = ([], Some NoFiltersDefined)"
  using parse_lines_no_name [OF assms, of "[]"]
  by (simp add: main_def getInput_def parseFilters_def Object_keys_Nil)

lemma parse_line_item:
  assumes "filterMatch (trim x) = None" and "map_of result name = Some ps"
  shows "parse_line (result, Some name) x =
           Inr (case item_pattern x of None \<Rightarrow> result | Some pat \<Rightarrow> push_own result name pat, Some name)"
  using assms
  by (auto simp: Let_def item_pattern_def itemMatch_Nil get_prop_def split: option.splits)

lemma parse_lines_items:
  assumes "\<forall>x\<in>set rest. filterMatch (trim x) = None" and "map_of result name = Some ps"
  shows "\<exists>result'. parse_lines (result, Some name) rest = Inr (result', Some name)
     \<and> map_of result' name = Some (ps @ List.map_filter item_pattern rest)
     \<and> (\<forall>k. k \<noteq> name \<longrightarrow> map_of result' k = map_of result k)"
  using assms
proof (induction rest arbitrary: result ps)
  case Nil
  then show ?case by simp
next
  case (Cons x xs)
  have fx: "filterMatch (trim x) = None" and fxs: "\<forall>x\<in>set xs. filterMatch (trim x) = None"
    using Cons.prems(1) by simp_all
  note step = parse_line_item [OF fx Cons.prems(2)]
  show ?case
  proof (cases "item_pattern x")
    case None
    with step Cons.IH [OF fxs Cons.prems(2)] show ?thesis
      by (simp del: parse_line.simps)
  next
    case (Some pat)
    have m: "map_of (push_own result name pat) name = Some (ps @ [pat])"
      using Cons.prems(2) by (rule push_own_same)
    from Cons.IH [OF fxs m] obtain result' where
      r: "parse_lines (push_own result name pat, Some name) xs = Inr (result', Some name)"
        "map_of result' name = Some ((ps @ [pat]) @ List.map_filter item_pattern xs)"
        "\<forall>k. k \<noteq> name \<longrightarrow> map_of result' k = map_of (push_own result name pat) k"
      by blast
    with step Some show ?thesis
      by (simp add: push_own_other del: parse_line.simps)
  qed
qed

text \<open>
  C9 as stated fails: a filter name that comes twice keeps the patterns of its first
  occurrence.
\<close>

theorem repeated_name_counterexample:
  "parseFilters (''a:'' @ [CHR 0x0A] @ ''  - x'' @ [CHR 0x0A] @ ''a:'' @ [CHR 0x0A] @ ''  - y'')
     = Inr [(''a'', [''x'', ''y''])]"
  by code_simp

text \<open>
  C9, amended. Take a filter-name line whose name is not one of the property names an
  object inherits from \<open>Object.prototype\<close> (\<open>constructor\<close>, \<open>toString\<close>, \<open>__proto__\<close> and the
  others of \<open>object_prototype_props\<close>). The line makes its name the current filter. When
  the name has no list yet the line gives it an empty one; when it has a list the line
  keeps it. So after the pattern lines that follow, the object holds for the name its
  former list (the empty list when it had none) followed by the patterns of those
  lines, in order, and the lists of the other filters are as before.
\<close>

theorem name_line_keeps_patterns:
  assumes "filterMatch (trim l) = Some name"
    and "name \<notin> set object_prototype_props"
    and "\<forall>x\<in>set rest. filterMatch (trim x) = None"
  shows "\<exists>result'. parse_lines (result, current) (l # rest) = Inr (result', Some name)
     \<and> map_of result' name =
         Some ((case map_of result name of None \<Rightarrow> [] | Some ps \<Rightarrow> ps) @ List.map_filter item_pattern rest)
     \<and> (\<forall>k. k \<noteq> name \<longrightarrow> map_of result' k = map_of result k)"
proof -
  let ?r1 = "if falsy (get_prop result name) then result @ [(name, [])] else result"
  let ?old = "case map_of result name of None \<Rightarrow> [] | Some ps \<Rightarrow> ps"
  have ne: "trim l \<noteq> []"
    using assms(1) filterMatch_Nil by auto
  have step: "parse_line (result, current) l = Inr (?r1, Some name)"
    using assms(1) ne by (simp add: Let_def)
  have m1: "map_of ?r1 name = Some ?old"
  proof (cases "map_of result name")
    case None
    with assms(2) show ?thesis
      by (simp add: falsy_get_prop map_add_def)
  next
    case (Some ps)
    then show ?thesis
      by (simp add: falsy_get_prop)
  qed
  have o1: "\<forall>k. k \<noteq> name \<longrightarrow> map_of ?r1 k = map_of result k"
    by (auto simp: map_add_def split: option.splits)
  from parse_lines_items [OF assms(3) m1] obtain result' where
    r: "parse_lines (?r1, Some name) rest = Inr (result', Some name)"
      "map_of result' name = Some (?old @ List.map_filter item_pattern rest)"
      "\<forall>k. k \<noteq> name \<longrightarrow> map_of result' k = map_of ?r1 k"
    by blast
  have "parse_lines (result, current) (l # rest) = Inr (result', Some name)"
    using step r(1) by (simp del: parse_line.simps)
  moreover have "\<forall>k. k \<noteq> name \<longrightarrow> map_of result' k = map_of result k"
    using r(3) o1 by simp
  ultimately show ?thesis
    using r(2) by blast
qed

theorem name_line_keeps_patterns_witness:
  "(\<exists>result'. parse_lines ([(''a'', [''x'']), (''b'', [])], Some ''b'') [''a:'', ''  - y'', [], ''  - 'z' '']
       = Inr (result', Some ''a'')
     \<and> map_of result' ''a'' = Some [''x'', ''y'', ''z'']
     \<and> map_of result' ''b'' = Some [])
   \<and> (\<exists>result'. parse_lines ([(''a'', [''x''])], Some ''a'') [''docs:''] = Inr (result', Some ''docs'')
     \<and> map_of result' ''docs'' = Some []
     \<and> map_of result' ''a'' = Some [''x''])"
proof
  have a: "filterMatch (trim ''a:'') = Some ''a''"
    by code_simp
  have b: "''a'' \<notin> set object_prototype_props"
    by code_simp
  have c: "\<forall>x\<in>set [''  - y'', [], ''  - 'z' '']. filterMatch (trim x) = None"
    by code_simp
  have d: "(case map_of [(''a'', [''x'']), (''b'', [])] ''a'' of None \<Rightarrow> [] | Some ps \<Rightarrow> ps)
             @ List.map_filter item_pattern [''  - y'', [], ''  - 'z' ''] = [''x'', ''y'', ''z'']"
    by code_simp
  show "\<exists>result'. parse_lines ([(''a'', [''x'']), (''b'', [])], Some ''b'') [''a:'', ''  - y'', [], ''  - 'z' '']
       = Inr (result', Some ''a'')
     \<and> map_of result' ''a'' = Some [''x'', ''y'', ''z'']
     \<and> map_of result' ''b'' = Some []"
    using name_line_keeps_patterns [OF a b c, of "[(''a'', [''x'']), (''b'', [])]" "Some ''b''"]
    unfolding d by fastforce
next
  have a: "filterMatch (trim ''docs:'') = Some ''docs''"
    by code_simp
  have b: "''docs'' \<notin> set object_prototype_props"
    by code_simp
  have c: "\<forall>x\<in>set ([] :: string list). filterMatch (trim x) = None"
    by simp
  have d: "(case map_of [(''a'', [''x''])] ''docs'' of None \<Rightarrow> [] | Some ps \<Rightarrow> ps)
             @ List.map_filter item_pattern [] = ([] :: string list)"
    by code_simp
  show "\<exists>result'. parse_lines ([(''a'', [''x''])], Some ''a'') [''docs:''] = Inr (result', Some ''docs'')
     \<and> map_of result' ''docs'' = Some []
     \<and> map_of result' ''a'' = Some [''x'']"
    using name_line_keeps_patterns [OF a b c, of "[(''a'', [''x''])]" "Some ''a''"]
    unfolding d by fastforce
qed

text \<open>
  C7 at a filter named \<open>toString\<close>. The line \<open>toString:\<close> is a filter-name line, but
  \<open>result["toString"]\<close> is the function every object inherits, so no array is created:
  the pattern line that follows throws a \<open>TypeError\<close>, and without a pattern line \<open>main\<close>
  finds no filter at all.
\<close>

theorem inherited_name_fails:
  "main (Some (''toString:'' @ [CHR 0x0A] @ ''  - src/**'')) (Inr [''src/a.c'']) = ([], Some TypeError)
   \<and> main (Some ''toString:'') (Inr [''src/a.c'']) = ([], Some NoFiltersDefined)
   \<and> filterMatch (trim ''toString:'') = Some ''toString''"
  by code_simp

text \<open>
  C10 at a filter named \<open>constructor\<close>. The pattern line before the name is ignored, as
  it is before the name \<open>code\<close>, but parsing throws a \<open>TypeError\<close> at the pattern line after
  the name.
\<close>

theorem orphan_then_inherited_name_fails:
  "main (Some (''  - docs/**'' @ [CHR 0x0A] @ ''constructor:'' @ [CHR 0x0A] @ ''  - src/**'')) (Inr [''src/a.c''])
     = ([], Some TypeError)
   \<and> parseFilters (''  - docs/**'' @ [CHR 0x0A] @ ''constructor:'' @ [CHR 0x0A] @ ''  - src/**'') = Inl TypeError
   \<and> filterMatch (trim ''constructor:'') = Some ''constructor''
   \<and> parseFilters (''  - docs/**'' @ [CHR 0x0A] @ ''code:'' @ [CHR 0x0A] @ ''  - src/**'')
       = Inr [(''code'', [''src/**''])]"
  by code_simp


text \<open>
  When no filter name of the text is a property of \<open>Object.prototype\<close>, \<open>current\<close> always
  names an own array, \<open>push\<close> never throws, and one filter name is enough for a
  non-empty object.
\<close>

lemma parse_line_succeeds:
  assumes "\<forall>n. filterMatch (trim x) = Some n \<longrightarrow> n \<notin> set object_prototype_props"
    and "\<forall>c. current = Some c \<longrightarrow> c \<in> fst ` set result"
  shows "\<exists>result' current'. parse_line (result, current) x = Inr (result', current')
     \<and> (\<forall>c. current' = Some c \<longrightarrow> c \<in> fst ` set result')
     \<and> (result \<noteq> [] \<or> filterMatch (trim x) \<noteq> None \<longrightarrow> result' \<noteq> [])"
proof (cases "filterMatch (trim x)")
  case (Some n)
  then have ne: "trim x \<noteq> []"
    using filterMatch_Nil by auto
  from Some assms(1) have "n \<notin> set object_prototype_props"
    by simp
  then have "n \<in> fst ` set (if falsy (get_prop result n) then result @ [(n, [])] else result)"
    by (auto simp: falsy_get_prop map_of_None_keys)
  moreover have "(if falsy (get_prop result n) then result @ [(n, [])] else result) \<noteq> []"
    using calculation by auto
  ultimately show ?thesis
    using Some ne by (simp add: Let_def)
next
  case None
  show ?thesis
  proof (cases current)
    case cn: None
    with None show ?thesis
      by (simp add: parse_line_no_name del: parse_line.simps)
  next
    case (Some c)
    with assms(2) obtain ps where ps: "map_of result c = Some ps"
      by (metis map_of_None_keys not_Some_eq set_map)
    have keys: "map fst (push_own result c pat) = map fst result" for pat
      by (rule push_own_keys)
    have "c \<in> fst ` set (push_own result c pat)" "result \<noteq> []" "push_own result c pat \<noteq> []" for pat
      using keys [of pat] assms(2) Some by (auto simp flip: set_map)
    then show ?thesis
      using None Some parse_line_item [OF None ps] assms(2)
      by (auto simp del: parse_line.simps split: option.splits)
  qed
qed

lemma parse_lines_succeeds:
  assumes "\<forall>x\<in>set ls. \<forall>n. filterMatch (trim x) = Some n \<longrightarrow> n \<notin> set object_prototype_props"
    and "\<forall>c. current = Some c \<longrightarrow> c \<in> fst ` set result"
  shows "\<exists>result' current'. parse_lines (result, current) ls = Inr (result', current')
     \<and> (result \<noteq> [] \<or> (\<exists>x\<in>set ls. filterMatch (trim x) \<noteq> None) \<longrightarrow> result' \<noteq> [])"
  using assms
proof (induction ls arbitrary: result current)
  case Nil
  then show ?case by simp
next
  case (Cons x xs)
  have hx: "\<forall>n. filterMatch (trim x) = Some n \<longrightarrow> n \<notin> set object_prototype_props"
    and hxs: "\<forall>x\<in>set xs. \<forall>n. filterMatch (trim x) = Some n \<longrightarrow> n \<notin> set object_prototype_props"
    using Cons.prems(1) by simp_all
  from parse_line_succeeds [OF hx Cons.prems(2)] obtain r1 c1 where
    s: "parse_line (result, current) x = Inr (r1, c1)"
      "\<forall>c. c1 = Some c \<longrightarrow> c \<in> fst ` set r1"
      "result \<noteq> [] \<or> filterMatch (trim x) \<noteq> None \<longrightarrow> r1 \<noteq> []"
    by blast
  from Cons.IH [OF hxs s(2)] obtain r2 c2 where
    t: "parse_lines (r1, c1) xs = Inr (r2, c2)"
      "r1 \<noteq> [] \<or> (\<exists>x\<in>set xs. filterMatch (trim x) \<noteq> None) \<longrightarrow> r2 \<noteq> []"
    by blast
  from s(1,3) t show ?case
    by (auto simp del: parse_line.simps)
qed

lemma filter_names_parse:
  assumes "getInput env True = Inr txt"
    and "\<forall>x\<in>set (split_lines txt). \<forall>n. filterMatch (trim x) = Some n \<longrightarrow> n \<notin> set object_prototype_props"
    and "\<exists>x\<in>set (split_lines txt). filterMatch (trim x) \<noteq> None"
  shows "\<exists>fm. parseFilters txt = Inr fm \<and> fm \<noteq> []"
  using parse_lines_succeeds [OF assms(2), of None "[]"] assms(3)
  by (auto simp: parseFilters_def)

subsection \<open>The two expressions of \<open>parseFilters\<close>\<close>

text \<open>
  \<open>filterMatch\<close> accepts exactly the lines the expression describes: one class character
  at least, a colon, white space to the end.
\<close>

lemma is_ident_colon: "\<not> is_ident (CHR '':'')"
  by (simp add: is_ident_def)

lemma filterMatch_iff:
  "(filterMatch line = Some name) =
     (name \<noteq> [] \<and> list_all is_ident name
      \<and> (\<exists>ws. list_all is_space ws \<and> line = name @ CHR '':'' # ws))"
proof
  assume a: "filterMatch line = Some name"
  then have n: "name = takeWhile is_ident line" "name \<noteq> []"
    and r: "startsWith (dropWhile is_ident line) (CHR '':'')" "list_all is_space (tl (dropWhile is_ident line))"
    by (auto simp: filterMatch_def Let_def split: if_splits)
  from r(1) obtain ws where ws: "dropWhile is_ident line = CHR '':'' # ws"
    by (cases "dropWhile is_ident line") auto
  have "line = name @ CHR '':'' # ws"
    using takeWhile_dropWhile_id [of is_ident line] n(1) ws by simp
  moreover have "list_all is_ident name"
    using n(1) by (auto simp: list_all_iff dest: set_takeWhileD)
  ultimately show "name \<noteq> [] \<and> list_all is_ident name
      \<and> (\<exists>ws. list_all is_space ws \<and> line = name @ CHR '':'' # ws)"
    using n(2) r(2) ws by auto
next
  assume "name \<noteq> [] \<and> list_all is_ident name
      \<and> (\<exists>ws. list_all is_space ws \<and> line = name @ CHR '':'' # ws)"
  then obtain ws where h: "name \<noteq> []" "list_all is_ident name" "list_all is_space ws"
    "line = name @ CHR '':'' # ws"
    by blast
  have t: "takeWhile is_ident line = name"
    using h(2,4) is_ident_colon by (simp add: list_all_iff takeWhile_append2)
  have d: "dropWhile is_ident line = CHR '':'' # ws"
    using h(2,4) is_ident_colon by (simp add: list_all_iff dropWhile_append2)
  show "filterMatch line = Some name"
    using t d h(1,3) by (simp add: filterMatch_def)
qed

text \<open>
  \<open>itemMatch\<close> on the lines the loop gives it, which are trimmed: the searches of the two
  quantifiers come down to one candidate.
\<close>

lemma find_unique:
  assumes "a \<in> set xs" and "P a" and "\<forall>x\<in>set xs. P x \<longrightarrow> x = a"
  shows "find P xs = Some a"
proof -
  from assms(1,2) obtain y where y: "find P xs = Some y"
    by (cases "find P xs") (auto simp: find_None_iff)
  then have "P y" "y \<in> set xs"
    by (auto simp: find_Some_iff)
  with assms(3) have "y = a"
    by blast
  with y show ?thesis
    by (simp only:)
qed

lemma hd_rev_dropWhile:
  "dropWhile P (rev u) \<noteq> [] \<Longrightarrow> hd (rev (dropWhile P (rev u))) = hd u"
  by (induction u rule: rev_induct) (auto simp: hd_append)

lemma last_rev_dropWhile:
  "dropWhile P (rev u) \<noteq> [] \<Longrightarrow> \<not> P (last (rev (dropWhile P (rev u))))"
  using hd_dropWhile [of P "rev u"] by (simp add: last_rev)

lemma trim_ends:
  assumes "trim s \<noteq> []"
  shows "\<not> is_space (hd (trim s)) \<and> \<not> is_space (last (trim s))"
proof -
  have v: "dropWhile is_space (rev (dropWhile is_space s)) \<noteq> []"
    using assms by (simp add: trim_def)
  then have u: "dropWhile is_space s \<noteq> []"
    by (auto dest: set_dropWhileD)
  have "hd (trim s) = hd (dropWhile is_space s)"
    unfolding trim_def using v by (rule hd_rev_dropWhile)
  moreover have "\<not> is_space (hd (dropWhile is_space s))"
    using u by (rule hd_dropWhile)
  moreover have "\<not> is_space (last (trim s))"
    unfolding trim_def using v by (rule last_rev_dropWhile)
  ultimately show ?thesis by simp
qed

lemma not_all_space_drop:
  assumes "\<not> is_space (last t)" and "n < length t"
  shows "\<not> list_all is_space (drop n t)"
proof
  assume "list_all is_space (drop n t)"
  then have a: "\<forall>x\<in>set (drop n t). is_space x"
    by (simp add: list_all_iff)
  have ne: "drop n t \<noteq> []"
    using assms(2) by simp
  have "last (drop n t) \<in> set (drop n t)"
    using ne by (rule last_in_set)
  then have "is_space (last (drop n t))"
    using a by blast
  then have "is_space (last t)"
    using last_drop [OF assms(2)] by (simp only: simp_thms)
  with assms(1) show False
    by blast
qed

lemma lazy_dot_plus_trimmed:
  assumes "t \<noteq> []" and "\<not> is_space (last t)"
  shows "lazy_dot_plus t = (if list_all (\<lambda>c. \<not> is_line_terminator c) t then Some t else None)"
proof (cases "list_all (\<lambda>c. \<not> is_line_terminator c) t")
  case True
  have f: "find (\<lambda>n. list_all (\<lambda>c. \<not> is_line_terminator c) (take n t) \<and> list_all is_space (drop n t))
          [1..<Suc (length t)] = Some (length t)"
  proof (rule find_unique)
    show "length t \<in> set [1..<Suc (length t)]"
      using assms(1) by (cases t) simp_all
    show "list_all (\<lambda>c. \<not> is_line_terminator c) (take (length t) t) \<and> list_all is_space (drop (length t) t)"
      using True by simp
    show "\<forall>x\<in>set [1..<Suc (length t)].
            list_all (\<lambda>c. \<not> is_line_terminator c) (take x t) \<and> list_all is_space (drop x t) \<longrightarrow> x = length t"
    proof (intro ballI impI)
      fix x
      assume x: "x \<in> set [1..<Suc (length t)]"
        and p: "list_all (\<lambda>c. \<not> is_line_terminator c) (take x t) \<and> list_all is_space (drop x t)"
      have "\<not> x < length t"
        using not_all_space_drop [OF assms(2)] p by blast
      moreover have "x \<le> length t"
        using x by auto
      ultimately show "x = length t"
        by simp
    qed
  qed
  have "lazy_dot_plus t = map_option (\<lambda>n. take n t) (Some (length t))"
    unfolding lazy_dot_plus_def by (simp only: f)
  also have "\<dots> = Some t"
    by simp
  finally show ?thesis
    using True by simp
next
  case False
  have f: "find (\<lambda>n. list_all (\<lambda>c. \<not> is_line_terminator c) (take n t) \<and> list_all is_space (drop n t))
          [1..<Suc (length t)] = None"
    unfolding find_None_iff
  proof (intro notI, elim exE conjE)
    fix x
    assume x: "x \<in> set [1..<Suc (length t)]"
      and p1: "list_all (\<lambda>c. \<not> is_line_terminator c) (take x t)"
      and p2: "list_all is_space (drop x t)"
    have "\<not> x < length t"
      using not_all_space_drop [OF assms(2)] p2 by blast
    then have "take x t = t"
      by simp
    with p1 False show False
      by simp
  qed
  have "lazy_dot_plus t = map_option (\<lambda>n. take n t) None"
    unfolding lazy_dot_plus_def by (simp only: f)
  then show ?thesis
    using False by simp
qed

lemma lazy_dot_plus_Nil: "lazy_dot_plus [] = None"
  by (simp add: lazy_dot_plus_def)

lemma drop_takeWhile_dropWhile:
  "k \<le> length (takeWhile P xs) \<Longrightarrow> drop k xs = drop k (takeWhile P xs) @ dropWhile P xs"
proof -
  assume k: "k \<le> length (takeWhile P xs)"
  have "drop k (takeWhile P xs @ dropWhile P xs) = drop k (takeWhile P xs) @ dropWhile P xs"
    using k by (simp del: takeWhile_dropWhile_id)
  then show ?thesis
    by (simp only: takeWhile_dropWhile_id)
qed

lemma last_dropWhile:
  "dropWhile P xs \<noteq> [] \<Longrightarrow> last (dropWhile P xs) = last xs"
proof -
  assume ne: "dropWhile P xs \<noteq> []"
  have "last (takeWhile P xs @ dropWhile P xs) = last (dropWhile P xs)"
    using ne by (rule last_appendR)
  then show ?thesis
    by (simp only: takeWhile_dropWhile_id)
qed

lemma all_space_trimmed_Nil:
  assumes "rest = [] \<or> \<not> is_space (last rest)" and "dropWhile is_space rest = []"
  shows "rest = []"
proof (rule ccontr)
  assume ne: "rest \<noteq> []"
  then have "last rest \<in> set rest"
    by (rule last_in_set)
  moreover have "\<forall>x\<in>set rest. is_space x"
    using assms(2) by (simp only: dropWhile_eq_Nil_conv)
  ultimately have "is_space (last rest)"
    by blast
  with assms(1) ne show False
    by blast
qed

text \<open>After the dash, when the line does not end in white space, the expression for
  pattern lines takes everything behind the leading white space, provided no line
  terminator is left in it.\<close>

lemma itemMatch_dash:
  assumes "rest = [] \<or> \<not> is_space (last rest)"
  shows "itemMatch (CHR ''-'' # rest) =
     (if dropWhile is_space rest \<noteq> [] \<and> list_all (\<lambda>c. \<not> is_line_terminator c) (dropWhile is_space rest)
      then Some (dropWhile is_space rest) else None)"
proof -
  let ?ws = "takeWhile is_space rest"
  let ?r = "dropWhile is_space rest"
  let ?F = "find (\<lambda>k. lazy_dot_plus (drop k rest) \<noteq> None) (rev [0..<Suc (length ?ws)])"
  have unfold: "itemMatch (CHR ''-'' # rest) = (case ?F of None \<Rightarrow> None | Some k \<Rightarrow> lazy_dot_plus (drop k rest))"
    unfolding itemMatch_def Let_def by (simp only: startsWith.simps list.sel simp_thms if_True)
  show ?thesis
  proof (cases "?r = []")
    case True
    then have "rest = []"
      using all_space_trimmed_Nil [OF assms] by blast
    then show ?thesis
      by (simp add: itemMatch_def lazy_dot_plus_Nil)
  next
    case rne: False
    have lastr: "\<not> is_space (last ?r)"
    proof -
      have "rest \<noteq> []" using rne by auto
      with assms have "\<not> is_space (last rest)" by blast
      then show ?thesis
        using last_dropWhile [OF rne] by (simp only: simp_thms)
    qed
    have each: "lazy_dot_plus (drop k rest) =
        (if list_all (\<lambda>c. \<not> is_line_terminator c) (drop k ?ws @ ?r) then Some (drop k ?ws @ ?r) else None)"
      if k: "k \<le> length ?ws" for k
    proof -
      have "drop k ?ws @ ?r \<noteq> []"
        using rne by blast
      moreover have "\<not> is_space (last (drop k ?ws @ ?r))"
        using lastr rne by (simp only: last_appendR simp_thms)
      ultimately have "lazy_dot_plus (drop k ?ws @ ?r) =
        (if list_all (\<lambda>c. \<not> is_line_terminator c) (drop k ?ws @ ?r) then Some (drop k ?ws @ ?r) else None)"
        by (rule lazy_dot_plus_trimmed)
      then show ?thesis
        using drop_takeWhile_dropWhile [OF k] by (simp only: simp_thms)
    qed
    have k0: "lazy_dot_plus (drop (length ?ws) rest) =
        (if list_all (\<lambda>c. \<not> is_line_terminator c) ?r then Some ?r else None)"
      using each [of "length ?ws"] by simp
    show ?thesis
    proof (cases "list_all (\<lambda>c. \<not> is_line_terminator c) ?r")
      case ok: True
      have k1: "lazy_dot_plus (drop (length ?ws) rest) = Some ?r"
        using k0 ok by (simp only: if_True simp_thms)
      have "rev [0..<Suc (length ?ws)] = length ?ws # rev [0..<length ?ws]"
        by simp
      then have "?F = Some (length ?ws)"
        using k1 by simp
      then have "itemMatch (CHR ''-'' # rest) = Some ?r"
        using unfold k1 by (simp only: option.case simp_thms)
      then show ?thesis
        using rne ok by (simp only: simp_thms if_True)
    next
      case bad: False
      have "?F = None"
        unfolding find_None_iff
      proof (intro notI, elim exE conjE)
        fix k
        assume k: "k \<in> set (rev [0..<Suc (length ?ws)])" and y: "lazy_dot_plus (drop k rest) \<noteq> None"
        from k have kl: "k \<le> length ?ws" by auto
        have "\<not> list_all (\<lambda>c. \<not> is_line_terminator c) (drop k ?ws @ ?r)"
          using bad by (simp only: list_all_append simp_thms)
        with each [OF kl] y show False by (simp only: if_False simp_thms)
      qed
      then have "itemMatch (CHR ''-'' # rest) = None"
        using unfold by (simp only: option.case simp_thms)
      then show ?thesis
        using bad by (simp only: simp_thms if_False)
    qed
  qed
qed


lemma dropWhile_hd_id: "xs \<noteq> [] \<Longrightarrow> \<not> P (hd xs) \<Longrightarrow> dropWhile P xs = xs"
  by (cases xs) simp_all

lemma trim_id:
  assumes "s \<noteq> []" and "\<not> is_space (hd s)" and "\<not> is_space (last s)"
  shows "trim s = s"
proof -
  have a: "dropWhile is_space s = s"
    using assms(1,2) by (rule dropWhile_hd_id)
  have "rev s \<noteq> []"
    using assms(1) by simp
  moreover have "\<not> is_space (hd (rev s))"
    using assms(1,3) by (simp add: hd_rev)
  ultimately have b: "dropWhile is_space (rev s) = rev s"
    by (rule dropWhile_hd_id)
  show ?thesis
    unfolding trim_def by (simp only: a b rev_rev_ident)
qed

text \<open>The pattern of a pattern line: the text of the trimmed line behind the dash and
  the white space after it, without its quotes.\<close>

lemma item_pattern_eq:
  "item_pattern raw_line =
     (if startsWith (trim raw_line) (CHR ''-'')
         \<and> dropWhile is_space (tl (trim raw_line)) \<noteq> []
         \<and> list_all (\<lambda>c. \<not> is_line_terminator c) (dropWhile is_space (tl (trim raw_line)))
      then Some (strip_quotes (dropWhile is_space (tl (trim raw_line)))) else None)"
proof (cases "startsWith (trim raw_line) (CHR ''-'')")
  case False
  then show ?thesis
    by (simp add: item_pattern_def itemMatch_def)
next
  case True
  then obtain rest where l: "trim raw_line = CHR ''-'' # rest"
    by (cases "trim raw_line") auto
  let ?r = "dropWhile is_space rest"
  have tr: "rest = [] \<or> \<not> is_space (last rest)"
  proof (cases "rest = []")
    case True
    then show ?thesis by blast
  next
    case False
    have "trim raw_line \<noteq> []"
      using l by simp
    then have "\<not> is_space (last (trim raw_line))"
      using trim_ends by blast
    moreover have "last (CHR ''-'' # rest) = last rest"
      using False by simp
    ultimately show ?thesis
      using l by (simp only: simp_thms)
  qed
  note m = itemMatch_dash [OF tr]
  show ?thesis
  proof (cases "?r \<noteq> [] \<and> list_all (\<lambda>c. \<not> is_line_terminator c) ?r")
    case ok: True
    then have rne: "?r \<noteq> []" by blast
    have h: "\<not> is_space (hd ?r)"
      using rne by (rule hd_dropWhile)
    have e: "\<not> is_space (last ?r)"
    proof -
      have "rest \<noteq> []" using rne by auto
      with tr have "\<not> is_space (last rest)" by blast
      then show ?thesis
        using last_dropWhile [OF rne] by (simp only: simp_thms)
    qed
    have t: "trim ?r = ?r"
      using rne h e by (rule trim_id)
    have "itemMatch (CHR ''-'' # rest) = Some ?r"
      using m ok by (simp only: if_True simp_thms)
    then have "item_pattern raw_line = Some (strip_quotes ?r)"
      unfolding item_pattern_def l by (simp only: option.map t)
    then show ?thesis
      using ok True unfolding l by (simp only: list.sel if_True simp_thms)
  next
    case bad: False
    have "itemMatch (CHR ''-'' # rest) = None"
      using m bad by (simp only: if_False simp_thms)
    then have "item_pattern raw_line = None"
      unfolding item_pattern_def l by (simp only: option.map)
    then show ?thesis
      using bad True unfolding l by (simp only: list.sel if_False simp_thms)
  qed
qed

end
